theory Spec2Isabelle
  imports Complex_Main "HOL-Library.Product_Lexorder"
begin

section \<open>Errors\<close>

text \<open>
  The Python exceptions the embedded functions can raise. A function that can raise
  returns \<open>py_error + 'a\<close>, with \<open>Inl\<close> the exception.
\<close>

datatype py_error = AssertionError | ValueError | IndexError | KeyError | TypeError

section \<open>Blocking-efficiency metrics (metrics/functional.py)\<close>

text \<open>
  Python's \<open>/\<close> on two ints is true division; its float result is idealised as a real
  number. \<open>math.inf\<close> is the extra value \<open>PosInf\<close>. The operation counts are
  \<open>Optional[int]\<close> holding numbers of comparisons, hence \<open>nat option\<close>.
\<close>

datatype pyfloat = Fin real | PosInf

definition reduction_ratio :: "nat option \<Rightarrow> nat option \<Rightarrow> real" where
  "reduction_ratio operations_before_blocking operations_after_blocking =
     (case operations_after_blocking of
        None \<Rightarrow> 0
      | Some after \<Rightarrow>
          (case operations_before_blocking of
             None \<Rightarrow> 0
           | Some before \<Rightarrow>
               if before = 0 then 0
               else (1 - real after / real before) * 100))"

definition comparison_efficiency :: "nat option \<Rightarrow> nat option \<Rightarrow> pyfloat" where
  "comparison_efficiency operations_before_blocking operations_after_blocking =
     (case operations_after_blocking of
        None \<Rightarrow> Fin 1
      | Some after \<Rightarrow>
          (case operations_before_blocking of
             None \<Rightarrow> Fin 1
           | Some before \<Rightarrow>
               if after = 0 then PosInf
               else Fin (real before / real after)))"

fun pyfloat_ge :: "pyfloat \<Rightarrow> real \<Rightarrow> bool" where
  "pyfloat_ge PosInf r = True"
| "pyfloat_ge (Fin x) r = (r \<le> x)"

section \<open>Default worker count (Deduplicator.__call__)\<close>

text \<open>
  \<open>os.cpu_count()\<close> returns an int or \<open>None\<close>; \<open>None // 2\<close> raises TypeError.
  The second argument is \<open>len(records)\<close>, the third the caller's \<open>num_threads\<close>.
\<close>

definition num_threads_used :: "nat option \<Rightarrow> nat \<Rightarrow> nat option \<Rightarrow> py_error + nat" where
  "num_threads_used cpu_count n_records num_threads =
     (case num_threads of
        Some k \<Rightarrow> Inr k
      | None \<Rightarrow>
          (case cpu_count of
             None \<Rightarrow> Inl TypeError
           | Some cores \<Rightarrow> Inr (min (min (cores div 2) 1) n_records)))"

section \<open>Clusterer (clusterings/dbscan_clusterer.py)\<close>

text \<open>
  The clusterer object holds scikit-learn's DBSCAN estimator, built from \<open>eps\<close>,
  \<open>min_samples\<close> and \<open>metric\<close>. The estimator's \<open>fit_predict\<close> is library code: it
  is a parameter here, a function of the estimator's configuration and of the distance
  matrix it is given. Matrices are lists of rows of floats, idealised as reals.
\<close>

record DBSCAN =
  eps :: real
  min_samples :: nat
  metric :: string

type_synonym matrix = "real list list"

type_synonym sk_fit_predict = "DBSCAN \<Rightarrow> matrix \<Rightarrow> int list"

definition DBScanClusterer_call ::
  "sk_fit_predict \<Rightarrow> DBSCAN \<Rightarrow> 'r list \<Rightarrow> matrix \<Rightarrow> int list" where
  "DBScanClusterer_call fit_predict clust_alg mentions_list similarity_matrix =
     (let dist_matrix = map (map (\<lambda>s. 1 - s)) similarity_matrix;
          indices = fit_predict clust_alg dist_matrix
      in indices)"

section \<open>Deduplication engine (deduplicator.py)\<close>

text \<open>
  A generator is modelled by what it emits over a whole run: the list of emitted items
  and, when an exception ends the run, that exception.
\<close>

type_synonym 'a gen = "'a list \<times> py_error option"

text \<open>
  The engine holds its comparators (the attribute lookup folded into each), the
  aggregation function and the clusterer's estimator.
\<close>

record 'r deduplicator =
  comparators :: "('r \<Rightarrow> 'r \<Rightarrow> real) list"
  aggregation_fn :: "real list \<Rightarrow> real"
  clusterer :: DBSCAN

definition compute_pairwise :: "'r deduplicator \<Rightarrow> 'r \<Rightarrow> 'r \<Rightarrow> real" where
  "compute_pairwise self a b = aggregation_fn self (map (\<lambda>comparator. comparator a b) (comparators self))"

text \<open>
  \<open>to_iter\<close>. The dictionary \<open>clusters\<close> maps a label to its cluster; a cluster
  starts with its \<open>cluster_id\<close> only and gets the key \<open>mentions\<close> with its first
  member, so the state of the loop is the member list of each label, \<open>None\<close> while
  the key is absent. Reading an absent \<open>mentions\<close> raises KeyError. Python fixes no
  order for the labels of a set; they are taken in ascending order here, and the members
  of a cluster do not depend on it. \<open>new_id k\<close> is the identifier drawn for the \<open>k\<close>-th
  label (the code draws a random UUID).
\<close>

definition add_mention :: "(int \<Rightarrow> 'r list option) \<Rightarrow> int \<times> 'r \<Rightarrow> (int \<Rightarrow> 'r list option)" where
  "add_mention clusters lm =
     (case lm of (label, mention) \<Rightarrow>
        if label \<noteq> - 1
        then clusters(label := Some ((case clusters label of None \<Rightarrow> [] | Some ms \<Rightarrow> ms) @ [mention]))
        else clusters)"

fun emit_clusters :: "(nat \<Rightarrow> 'id) \<Rightarrow> (int \<Rightarrow> 'r list option) \<Rightarrow> (nat \<times> int) list \<Rightarrow> ('id \<times> 'r list) gen" where
  "emit_clusters new_id clusters [] = ([], None)"
| "emit_clusters new_id clusters ((k, cl) # rest) =
     (case clusters cl of
        None \<Rightarrow> ([], Some KeyError)
      | Some ms \<Rightarrow>
          (case emit_clusters new_id clusters rest of
             (out, err) \<Rightarrow> ((new_id k, ms) # out, err)))"

definition to_iter :: "(nat \<Rightarrow> 'id) \<Rightarrow> int list \<Rightarrow> 'r list \<Rightarrow> ('id \<times> 'r list) gen" where
  "to_iter new_id cluster_labels records =
     (let uniq_cluster_labels = sort (remdups (filter (\<lambda>l. l \<noteq> - 1) cluster_labels));
          clusters = foldl add_mention (\<lambda>cl. None) (zip cluster_labels records)
      in emit_clusters new_id clusters (enumerate 0 uniq_cluster_labels))"

text \<open>
  \<open>_block_process\<close>. The similarity matrix has 1 on the diagonal and the aggregated
  score of the pair \<open>(i, j)\<close>, \<open>i < j\<close>, at both \<open>[i, j]\<close> and \<open>[j, i]\<close>; entries below
  the threshold are then set to 0. The clusterer is called with \<open>records\<close>, the whole
  input of the run, not with the block's records.
\<close>

definition sim_matrix_of :: "'r deduplicator \<Rightarrow> real \<Rightarrow> 'r list \<Rightarrow> matrix" where
  "sim_matrix_of self similarity_threshold group_records =
     (let n_records = length group_records
      in map (\<lambda>i. map (\<lambda>j.
           (let s = (if i = j then 1
                     else if i < j then compute_pairwise self (group_records ! i) (group_records ! j)
                     else compute_pairwise self (group_records ! j) (group_records ! i))
            in if s < similarity_threshold then 0 else s)) [0..<n_records]) [0..<n_records])"

definition block_process ::
  "sk_fit_predict \<Rightarrow> 'r deduplicator \<Rightarrow> 'r list \<Rightarrow> real \<Rightarrow> (nat \<Rightarrow> 'id) \<Rightarrow> 'r list \<Rightarrow> ('id \<times> 'r list) gen" where
  "block_process fit_predict self records similarity_threshold new_id group_records =
     (if group_records = [] then ([], None)
      else
        (let n_records = length group_records;
             sim_matrix = sim_matrix_of self similarity_threshold group_records;
             labels = (if n_records > 1
                       then DBScanClusterer_call fit_predict (clusterer self) records sim_matrix
                       else [0])
         in to_iter new_id labels group_records))"



section \<open>Sorted-neighbourhood splitter (blockings/pruners, utils/iter_utils.py)\<close>

text \<open>
  \<open>sliding_window\<close>. \<open>islice(seq, start, end)\<close> on a list is \<open>seq[start:end]\<close>. Each
  turn of the loop emits the window, advances both bounds by the step and stops once the
  window just emitted was shorter than \<open>window_size\<close>. The loop need not stop (a window
  size of 0 never gives a short window), so the function returns an \<open>option\<close>:
  \<open>None\<close> is a run that never ends.
\<close>

partial_function (option) sliding_window_from ::
  "'a list \<Rightarrow> nat \<Rightarrow> nat \<Rightarrow> nat \<Rightarrow> nat \<Rightarrow> 'a list list option" where
  "sliding_window_from seq window_size step_size start end' =
     (let window = take (end' - start) (drop start seq)
      in if length window < window_size then Some [window]
         else Option.bind
                (sliding_window_from seq window_size step_size (start + step_size) (end' + step_size))
                (\<lambda>rest. Some (window # rest)))"

definition sliding_window :: "'a list \<Rightarrow> nat \<Rightarrow> nat \<Rightarrow> 'a list list option" where
  "sliding_window seq window_size step_size = sliding_window_from seq window_size step_size 0 window_size"

text \<open>
  The splitter. \<open>sorted\<close> is stable, as \<open>sort_key\<close> is.
\<close>

record ('r, 'k) SortedNeighbourhoodBlockSplitter =
  max_block_size :: nat
  window_size :: nat
  step_size :: nat
  sorting_key_fn :: "'r \<Rightarrow> 'k"

definition SortedNeighbourhoodBlockSplitter_call ::
  "('r, 'k :: linorder) SortedNeighbourhoodBlockSplitter \<Rightarrow> 'g \<Rightarrow> 'r list \<Rightarrow> ('g \<times> 'r list) list option" where
  "SortedNeighbourhoodBlockSplitter_call self block_id block =
     (if length block \<le> max_block_size self then Some [(block_id, block)]
      else
        (let sorted_block = sort_key (sorting_key_fn self) block
         in map_option (map (\<lambda>window. (block_id, window)))
              (sliding_window sorted_block (window_size self) (step_size self))))"

section \<open>Label algebra (utils/er_utils.py)\<close>

text \<open>
  A MentionId is the position of a record in the input, a \<open>nat\<close>; a ClusterId is an
  \<open>int\<close>, with \<open>-1\<close> for no cluster; a LinkedPair is a pair of MentionIds.
\<close>

type_synonym MentionId = nat
type_synonym ClusterId = int
type_synonym LinkedPair = "MentionId \<times> MentionId"

text \<open>
  \<open>labels_to_pairs\<close>. The dictionary \<open>clusters_dict\<close> maps a label to the nodes seen
  with it so far, in the order seen. The \<open>assert\<close> is the first branch.
\<close>

definition labels_to_pairs_step ::
  "LinkedPair list \<times> (ClusterId \<Rightarrow> MentionId list option) \<Rightarrow> MentionId \<times> ClusterId \<Rightarrow>
     LinkedPair list \<times> (ClusterId \<Rightarrow> MentionId list option)" where
  "labels_to_pairs_step st nl =
     (case st of (pairs, clusters_dict) \<Rightarrow>
        (case nl of (node, label) \<Rightarrow>
           (let linked = (case clusters_dict label of None \<Rightarrow> [] | Some ns \<Rightarrow> ns)
            in (pairs @ map (\<lambda>linked_node. (node, linked_node)) linked,
                clusters_dict(label := Some (linked @ [node]))))))"

definition labels_to_pairs :: "ClusterId list \<Rightarrow> py_error + LinkedPair list" where
  "labels_to_pairs labels =
     (if - 1 \<in> set labels then Inl AssertionError
      else Inr (fst (foldl labels_to_pairs_step ([], \<lambda>label. None) (enumerate 0 labels))))"

text \<open>
  The state of the loop of \<open>labels_to_pairs\<close> after the whole list (used in the proofs).
\<close>

definition labels_to_pairs_state ::
  "ClusterId list \<Rightarrow> LinkedPair list \<times> (ClusterId \<Rightarrow> MentionId list option)" where
  "labels_to_pairs_state labels = foldl labels_to_pairs_step ([], \<lambda>label. None) (enumerate 0 labels)"







section \<open>Confusion matrix on pairs (metrics/functional.py)\<close>






section \<open>Blocking rules: the OR combinator (blockings/rules)\<close>














text \<open>
  \<open>pairs_to_labels\<close>. \<open>node_matches\<close> is a list of references to set objects, and
  the loop over the pairs makes entries share an object: \<open>node_matches[node_b] =
  node_matches[node_a]\<close> stores a reference, and \<open>update\<close> changes the object in place,
  for every entry that refers to it. So the state is a store: \<open>heap\<close> holds the set
  objects (object \<open>i\<close> is the one created for node \<open>i\<close>) and \<open>refs\<close> holds, for each
  node, the object that \<open>node_matches[node]\<close> refers to. Indexing \<open>node_matches\<close> beyond
  its length raises IndexError.
\<close>

record node_store =
  refs :: "nat list"
  heap :: "MentionId set list"

definition init_store :: "nat \<Rightarrow> node_store" where
  "init_store total_mentions =
     \<lparr>refs = [0..<total_mentions], heap = map (\<lambda>i. {i}) [0..<total_mentions]\<rparr>"

definition link_pair :: "py_error + node_store \<Rightarrow> LinkedPair \<Rightarrow> py_error + node_store" where
  "link_pair st pair =
     (case st of
        Inl e \<Rightarrow> Inl e
      | Inr node_matches \<Rightarrow>
          (case pair of (node_a, node_b) \<Rightarrow>
             if \<not> node_a < length (refs node_matches) then Inl IndexError
             else if \<not> node_b < length (refs node_matches) then Inl IndexError
             else
               (let obj_a = refs node_matches ! node_a;
                    obj_b = refs node_matches ! node_b;
                    heap' = (heap node_matches)[obj_a := heap node_matches ! obj_a \<union> heap node_matches ! obj_b]
                in Inr \<lparr>refs = (refs node_matches)[node_b := obj_a], heap = heap'\<rparr>)))"

text \<open>
  The second loop gives the next cluster index to every member of the set of a node that
  has no label yet. The sets hold node indices only, so each assignment
  \<open>final_labels[l_node] = cluster_idx\<close> is in range; the order in which the set is
  visited does not matter, since every member gets the same value.
\<close>

definition label_node ::
  "bool \<Rightarrow> node_store \<Rightarrow> ClusterId list \<times> int \<Rightarrow> nat \<Rightarrow> ClusterId list \<times> int" where
  "label_node drop_singletons node_matches st node =
     (case st of (final_labels, cluster_idx) \<Rightarrow>
        (let linked_nodes = heap node_matches ! (refs node_matches ! node)
         in if final_labels ! node > - 1 then (final_labels, cluster_idx)
            else if drop_singletons \<and> card linked_nodes = 1 then (final_labels, cluster_idx)
            else (map (\<lambda>(l_node, label). if l_node \<in> linked_nodes then cluster_idx else label)
                    (enumerate 0 final_labels),
                  cluster_idx + 1)))"

definition pairs_to_labels :: "LinkedPair list \<Rightarrow> nat \<Rightarrow> bool \<Rightarrow> py_error + ClusterId list" where
  "pairs_to_labels pairs total_mentions drop_singletons =
     (case foldl link_pair (Inr (init_store total_mentions)) pairs of
        Inl e \<Rightarrow> Inl e
      | Inr node_matches \<Rightarrow>
          Inr (fst (foldl (label_node drop_singletons node_matches)
                      (replicate total_mentions (- 1), 0) [0..<total_mentions])))"

text \<open>
  The round trip \<open>labels_to_pairs(pairs_to_labels(P, N))\<close>, with \<open>drop_singletons\<close> at
  its default.
\<close>

definition pairs_round_trip :: "LinkedPair list \<Rightarrow> nat \<Rightarrow> py_error + LinkedPair list" where
  "pairs_round_trip pairs total_mentions =
     (case pairs_to_labels pairs total_mentions False of
        Inl e \<Rightarrow> Inl e
      | Inr labels \<Rightarrow> labels_to_pairs labels)"

text \<open>
  A list of pairs read as a set of unordered pairs; two mentions are linked when the list
  holds their pair in either order; the list is transitively closed when two distinct
  mentions linked to a common third are linked themselves.
\<close>

definition unordered_pairs :: "LinkedPair list \<Rightarrow> MentionId set set" where
  "unordered_pairs pairs = (\<lambda>(a, b). {a, b}) ` set pairs"

definition sym_pairs :: "LinkedPair list \<Rightarrow> LinkedPair list" where
  "sym_pairs pairs = pairs @ map (\<lambda>(a, b). (b, a)) pairs"

definition transitively_closed :: "LinkedPair list \<Rightarrow> bool" where
  "transitively_closed pairs =
     (\<forall>(a, b) \<in> set (sym_pairs pairs). \<forall>(c, d) \<in> set (sym_pairs pairs).
        b = c \<and> a \<noteq> d \<longrightarrow> (a, d) \<in> set (sym_pairs pairs))"

text \<open>
  For the proofs: two mentions are the same entity when they are equal or linked;
  \<open>matches st x\<close> is the set that \<open>node_matches[x]\<close> refers to; \<open>store_inv\<close> is the
  invariant of the first loop with respect to an equivalence \<open>R\<close> on the mentions.
\<close>

definition linked :: "LinkedPair list \<Rightarrow> MentionId \<Rightarrow> MentionId \<Rightarrow> bool" where
  "linked pairs a b = ((a, b) \<in> set pairs \<or> (b, a) \<in> set pairs)"

definition same_entity :: "LinkedPair list \<Rightarrow> MentionId \<Rightarrow> MentionId \<Rightarrow> bool" where
  "same_entity pairs a b = (a = b \<or> linked pairs a b)"

definition matches :: "node_store \<Rightarrow> MentionId \<Rightarrow> MentionId set" where
  "matches st x = heap st ! (refs st ! x)"

definition store_inv :: "(MentionId \<Rightarrow> MentionId \<Rightarrow> bool) \<Rightarrow> nat \<Rightarrow> node_store \<Rightarrow> bool" where
  "store_inv R N st =
     (length (refs st) = N \<and> length (heap st) = N
      \<and> (\<forall>x < N. refs st ! x < N)
      \<and> (\<forall>x < N. x \<in> matches st x)
      \<and> (\<forall>k < N. \<forall>y \<in> heap st ! k. y < N \<and> R k y)
      \<and> (\<forall>x < N. R x (refs st ! x)))"

section \<open>Theorems\<close>

subsection \<open>Default worker count\<close>

text \<open>
  Claim C9, evaluated on the code. The claim gives the default worker count as
  \<open>max 1 (min (cores div 2) N)\<close>. The code computes \<open>min (min (cores div 2) 1) N\<close>:
  on a machine with 8 cores and 100 input records it uses 1 worker thread, where the
  claimed formula gives 4.
\<close>

theorem num_threads_used_8_cores_100_records:
  "num_threads_used (Some 8) 100 None = Inr 1 \<and> max 1 (min (8 div 2) 100) = (4::nat)"
  by (simp add: num_threads_used_def)

subsection \<open>The clusterer and its first argument\<close>

text \<open>
  Claim C10. The labels the clusterer returns depend on the similarity matrix and on the
  estimator's configuration only: two calls that differ in the mention list alone return
  the same labels. So processing a block gives the same result whether the clusterer is
  handed the whole input (as the call site does) or the block's own records.
\<close>

theorem DBScanClusterer_ignores_mentions:
  "DBScanClusterer_call fit_predict clust_alg mentions_a similarity_matrix =
     DBScanClusterer_call fit_predict clust_alg mentions_b similarity_matrix
   \<and> block_process fit_predict self records similarity_threshold new_id group_records =
     block_process fit_predict self group_records similarity_threshold new_id group_records"
  by (simp add: DBScanClusterer_call_def block_process_def)

subsection \<open>Reduction ratio and comparison efficiency\<close>

text \<open>
  Claim C8 fails as stated: the reduction ratio is not bounded below by 0. With 1
  comparison before blocking and 2 after (overlapping sub-blocks can repeat pairs) it is
  \<open>-100\<close>.
\<close>

theorem reduction_ratio_below_zero:
  "reduction_ratio (Some 1) (Some 2) = - 100 \<and>
   \<not> (0 \<le> reduction_ratio (Some 1) (Some 2) \<and> reduction_ratio (Some 1) (Some 2) \<le> 100)"
  by (simp add: reduction_ratio_def)

text \<open>
  Claim C8, amended. The reduction ratio is \<open>(1 - after / before) * 100\<close> when both
  counts are present and \<open>before\<close> is not 0, and 0 when \<open>before\<close> is 0 or a count is
  missing; it never exceeds 100, and it is at least 0 whenever \<open>after \<le> before\<close>. The
  comparison efficiency is \<open>before / after\<close>, infinite when \<open>after\<close> is 0, 1 when a count
  is missing, and at least 1 whenever \<open>after \<le> before\<close>.
\<close>

theorem blocking_efficiency_metrics:
  "reduction_ratio (Some before) (Some after) =
     (if before = 0 then 0 else (1 - real after / real before) * 100)
   \<and> reduction_ratio None a = 0 \<and> reduction_ratio b None = 0
   \<and> reduction_ratio b a \<le> 100
   \<and> (after \<le> before \<longrightarrow> 0 \<le> reduction_ratio (Some before) (Some after))
   \<and> comparison_efficiency (Some before) (Some after) =
     (if after = 0 then PosInf else Fin (real before / real after))
   \<and> comparison_efficiency None a = Fin 1 \<and> comparison_efficiency b None = Fin 1
   \<and> (after \<le> before \<longrightarrow> pyfloat_ge (comparison_efficiency (Some before) (Some after)) 1)"
proof -
  have le100: "reduction_ratio b a \<le> 100"
  proof (cases b; cases a)
    fix x y assume "b = Some x" "a = Some y"
    moreover have "x \<noteq> 0 \<Longrightarrow> 0 \<le> real y / real x" by simp
    ultimately show ?thesis by (auto simp: reduction_ratio_def)
  qed (simp_all add: reduction_ratio_def)
  have ge0: "0 \<le> reduction_ratio (Some before) (Some after)" if le: "after \<le> before"
  proof (cases "before = 0")
    case True
    then show ?thesis by (simp add: reduction_ratio_def)
  next
    case False
    then have "real after / real before \<le> 1" using le by (simp add: divide_le_eq)
    then have "0 \<le> (1 - real after / real before) * 100"
      by (intro mult_nonneg_nonneg) simp_all
    moreover have "reduction_ratio (Some before) (Some after) = (1 - real after / real before) * 100"
      using False by (simp add: reduction_ratio_def)
    ultimately show ?thesis by (simp only:)
  qed
  have ce: "after \<le> before \<Longrightarrow> pyfloat_ge (comparison_efficiency (Some before) (Some after)) 1"
    by (simp add: comparison_efficiency_def)
  show ?thesis using le100 ge0 ce
    by (cases b; cases a) (simp_all add: reduction_ratio_def comparison_efficiency_def)
qed

theorem blocking_efficiency_metrics_witness:
  "(4::nat) \<le> 10 \<and> reduction_ratio (Some 10) (Some 4) = 60
   \<and> pyfloat_ge (comparison_efficiency (Some 10) (Some 4)) 1
   \<and> comparison_efficiency (Some 10) (Some 4) = Fin (5 / 2)"
  using blocking_efficiency_metrics [of 10 4 None None] by simp

subsection \<open>Emitted clusters\<close>











subsection \<open>Sorted-neighbourhood splitting\<close>

text \<open>
  Claim C5, evaluated on the code. A block of 10 records over the size limit, split with
  window size 3 and step 1, gives 9 sub-blocks: the 8 full windows and then a last window
  of 2 records, because the loop stops only after it has emitted a short window. The
  documentation of \<open>sliding_window\<close> shows full windows only (three windows of width 4
  over \<open>range(6)\<close>); the code emits a fourth, short one.
\<close>

theorem splitter_ten_records_window_3_step_1:
  "SortedNeighbourhoodBlockSplitter_call
     \<lparr>max_block_size = 5, window_size = 3, step_size = 1, sorting_key_fn = (\<lambda>r. r)\<rparr>
     (0::nat) [3, 1, 4, 0, 5, 9, 2, 6, 8, 7 :: nat]
   = Some [(0, [0, 1, 2]), (0, [1, 2, 3]), (0, [2, 3, 4]), (0, [3, 4, 5]), (0, [4, 5, 6]),
           (0, [5, 6, 7]), (0, [6, 7, 8]), (0, [7, 8, 9]), (0, [8, 9])]
   \<and> sliding_window [0::nat, 1, 2, 3, 4, 5] 4 1 =
       Some [[0, 1, 2, 3], [1, 2, 3, 4], [2, 3, 4, 5], [3, 4, 5]]"
  by (simp add: SortedNeighbourhoodBlockSplitter_call_def sliding_window_def sliding_window_from.simps)

subsection \<open>Pairs of a label vector\<close>

lemma labels_to_pairs_state_snoc:
  "labels_to_pairs_state (labels @ [l]) =
     labels_to_pairs_step (labels_to_pairs_state labels) (length labels, l)"
  by (simp add: labels_to_pairs_state_def enumerate_append_eq)

lemma labels_to_pairs_state_dict:
  "snd (labels_to_pairs_state labels) l =
     (if l \<in> set labels then Some (filter (\<lambda>i. labels ! i = l) [0..<length labels]) else None)"
proof (induction labels rule: rev_induct)
  case Nil
  then show ?case by (simp add: labels_to_pairs_state_def)
next
  case (snoc x xs)
  have same: "filter (\<lambda>i. (xs @ [x]) ! i = l) [0..<length xs] = filter (\<lambda>i. xs ! i = l) [0..<length xs]"
    by (rule filter_cong) (auto simp: nth_append)
  obtain ps d where st: "labels_to_pairs_state xs = (ps, d)" by (cases "labels_to_pairs_state xs")
  then have d: "d l = (if l \<in> set xs then Some (filter (\<lambda>i. xs ! i = l) [0..<length xs]) else None)"
    using snoc.IH by simp
  have empty: "filter (\<lambda>i. xs ! i = l) [0..<length xs] = []" if "l \<notin> set xs"
    using that by (auto simp: filter_empty_conv)
  show ?case
  proof (cases "l = x")
    case True
    have "d x = (if x \<in> set xs then Some (filter (\<lambda>i. xs ! i = x) [0..<length xs]) else None)"
      using d True by simp
    then have "(case d x of None \<Rightarrow> [] | Some ns \<Rightarrow> ns) = filter (\<lambda>i. xs ! i = x) [0..<length xs]"
      using empty True by (cases "x \<in> set xs") simp_all
    then show ?thesis
      unfolding labels_to_pairs_state_snoc st using True same
      by (simp add: labels_to_pairs_step_def Let_def)
  next
    case False
    then show ?thesis
      unfolding labels_to_pairs_state_snoc st using same
      by (simp add: labels_to_pairs_step_def d Let_def)
  qed
qed

lemma labels_to_pairs_state_pairs:
  "set (fst (labels_to_pairs_state labels)) =
     {(j, i). i < j \<and> j < length labels \<and> labels ! i = labels ! j}
   \<and> distinct (fst (labels_to_pairs_state labels))"
proof (induction labels rule: rev_induct)
  case Nil
  then show ?case by (simp add: labels_to_pairs_state_def)
next
  case (snoc x xs)
  let ?n = "length xs"
  obtain ps d where st: "labels_to_pairs_state xs = (ps, d)" by (cases "labels_to_pairs_state xs")
  have ps: "set ps = {(j, i). i < j \<and> j < ?n \<and> xs ! i = xs ! j}" and dist: "distinct ps"
    using snoc.IH st by simp_all
  have d: "d x = (if x \<in> set xs then Some (filter (\<lambda>i. xs ! i = x) [0..<?n]) else None)"
    using labels_to_pairs_state_dict [of xs x] st by simp
  define linked where "linked = (case d x of None \<Rightarrow> [] | Some ns \<Rightarrow> ns)"
  have linked: "linked = filter (\<lambda>i. xs ! i = x) [0..<?n]"
  proof (cases "x \<in> set xs")
    case True
    then show ?thesis by (simp add: linked_def d)
  next
    case False
    then have "filter (\<lambda>i. xs ! i = x) [0..<?n] = []"
      by (auto simp: filter_empty_conv)
    then show ?thesis using False by (simp add: linked_def d)
  qed
  have new: "fst (labels_to_pairs_state (xs @ [x])) = ps @ map (\<lambda>linked_node. (?n, linked_node)) linked"
    unfolding labels_to_pairs_state_snoc st
    by (simp add: labels_to_pairs_step_def linked_def Let_def)
  have setnew: "set (map (\<lambda>linked_node. (?n, linked_node)) linked) = {(j, i). j = ?n \<and> i < ?n \<and> xs ! i = x}"
    by (auto simp: linked)
  have "set (fst (labels_to_pairs_state (xs @ [x]))) =
      {(j, i). i < j \<and> j < ?n \<and> xs ! i = xs ! j} \<union> {(j, i). j = ?n \<and> i < ?n \<and> xs ! i = x}"
    unfolding new using ps setnew by simp
  also have "\<dots> = {(j, i). i < j \<and> j < length (xs @ [x]) \<and> (xs @ [x]) ! i = (xs @ [x]) ! j}"
    by (auto simp: nth_append less_Suc_eq)
  finally have A: "set (fst (labels_to_pairs_state (xs @ [x]))) =
     {(j, i). i < j \<and> j < length (xs @ [x]) \<and> (xs @ [x]) ! i = (xs @ [x]) ! j}" .
  have "distinct (map (\<lambda>linked_node. (?n, linked_node)) linked)"
    by (simp add: distinct_map linked inj_on_def)
  moreover have "set ps \<inter> set (map (\<lambda>linked_node. (?n, linked_node)) linked) = {}"
    unfolding setnew ps by auto
  ultimately have B: "distinct (fst (labels_to_pairs_state (xs @ [x])))"
    unfolding new using dist by simp
  show ?case using A B by blast
qed

text \<open>
  Claim C6 fails as stated in the orientation of the pairs: the later index comes first,
  so a pair is \<open>(max, min)\<close>, as in the example of the function's documentation.
\<close>

theorem labels_to_pairs_first_is_larger:
  "labels_to_pairs [0, 0] = Inr [(1, 0)] \<and> \<not> (fst (1::nat, 0::nat) = min 1 0 \<and> snd (1::nat, 0::nat) = max 1 0)"
  by (simp add: labels_to_pairs_def labels_to_pairs_step_def)

text \<open>
  Claim C6, amended. For a label vector without \<open>-1\<close>, \<open>labels_to_pairs\<close> returns
  exactly one pair for each unordered pair of distinct indices that share a label (the
  list has no repetition and holds \<open>(j, i)\<close> exactly for \<open>i < j\<close> with equal labels), and
  every returned pair \<open>(a, b)\<close> has \<open>a\<close> the larger and \<open>b\<close> the smaller mention id.
\<close>

theorem labels_to_pairs_one_pair_per_link:
  assumes "- 1 \<notin> set L"
  shows "\<exists>ps. labels_to_pairs L = Inr ps \<and> distinct ps
           \<and> set ps = {(j, i). i < j \<and> j < length L \<and> L ! i = L ! j}
           \<and> (\<forall>(a, b) \<in> set ps. a = max a b \<and> b = min a b \<and> a \<noteq> b)"
proof -
  let ?ps = "fst (labels_to_pairs_state L)"
  have 1: "labels_to_pairs L = Inr ?ps"
    using assms by (simp add: labels_to_pairs_def labels_to_pairs_state_def)
  have 2: "distinct ?ps" and 3: "set ?ps = {(j, i). i < j \<and> j < length L \<and> L ! i = L ! j}"
    using labels_to_pairs_state_pairs [of L] by blast+
  have 4: "\<forall>(a, b) \<in> set ?ps. a = max a b \<and> b = min a b \<and> a \<noteq> b"
    unfolding 3 by auto
  show ?thesis using 1 2 3 4 by blast
qed

theorem labels_to_pairs_one_pair_per_link_witness:
  "- 1 \<notin> set [0, 0, 1, 0 :: int] \<and> labels_to_pairs [0, 0, 1, 0] = Inr [(1, 0), (3, 0), (3, 1)]"
  using labels_to_pairs_one_pair_per_link [of "[0, 0, 1, 0]"]
  by (simp add: labels_to_pairs_def labels_to_pairs_step_def)

subsection \<open>Labels of a list of clusters\<close>









subsection \<open>Pair counts of the confusion matrix\<close>










subsection \<open>The OR combinator at its two levels\<close>

















subsection \<open>From pairs to labels and back\<close>

lemma init_store_inv:
  assumes "equivp R"
  shows "store_inv R N (init_store N)"
  using equivp_reflp [OF assms] by (simp add: store_inv_def init_store_def matches_def)

lemma link_pair_step:
  assumes eq: "equivp R"
    and inv: "store_inv R N st" and a: "a < N" and b: "b < N" and ab: "R a b"
  shows "\<exists>st'. link_pair (Inr st) (a, b) = Inr st' \<and> store_inv R N st'
           \<and> (\<forall>x < N. matches st x \<subseteq> matches st' x)
           \<and> b \<in> matches st' a \<and> a \<in> matches st' b"
proof -
  note sym = equivp_symp [OF eq] and trans = equivp_transp [OF eq]
  define ra where "ra = refs st ! a"
  define rb where "rb = refs st ! b"
  define st' where "st' = \<lparr>refs = (refs st)[b := ra], heap = (heap st)[ra := heap st ! ra \<union> heap st ! rb]\<rparr>"
  have len: "length (refs st) = N" "length (heap st) = N"
    and range: "\<And>x. x < N \<Longrightarrow> refs st ! x < N"
    and self: "\<And>x. x < N \<Longrightarrow> x \<in> heap st ! (refs st ! x)"
    and sound: "\<And>k y. k < N \<Longrightarrow> y \<in> heap st ! k \<Longrightarrow> y < N \<and> R k y"
    and ref: "\<And>x. x < N \<Longrightarrow> R x (refs st ! x)"
    using inv by (auto simp: store_inv_def matches_def)
  have ra: "ra < N" and rb: "rb < N" using range a b by (simp_all add: ra_def rb_def)
  have run: "link_pair (Inr st) (a, b) = Inr st'"
    using a b len by (simp add: link_pair_def st'_def ra_def rb_def Let_def)
  have refs': "\<And>x. x < N \<Longrightarrow> refs st' ! x = (if x = b then ra else refs st ! x)"
    using len by (simp add: st'_def nth_list_update)
  have heap': "\<And>k. k < N \<Longrightarrow> heap st' ! k = (if k = ra then heap st ! ra \<union> heap st ! rb else heap st ! k)"
    using len by (simp add: st'_def nth_list_update)
  have grow: "\<And>k. k < N \<Longrightarrow> heap st ! k \<subseteq> heap st' ! k"
    using heap' by auto
  have m': "\<And>x. x < N \<Longrightarrow> matches st' x = heap st' ! (if x = b then ra else refs st ! x)"
    using refs' by (simp add: matches_def)
  have R_a_ra: "R a ra" using ref a by (simp add: ra_def)
  have R_b_rb: "R b rb" using ref b by (simp add: rb_def)
  have R_ra_rb: "R ra rb"
    using R_a_ra R_b_rb ab sym trans by blast
  have mono: "\<forall>x < N. matches st x \<subseteq> matches st' x"
  proof (intro allI impI)
    fix x assume x: "x < N"
    show "matches st x \<subseteq> matches st' x"
    proof (cases "x = b")
      case True
      have "matches st b = heap st ! rb" by (simp add: matches_def rb_def)
      moreover have "matches st' b = heap st ! ra \<union> heap st ! rb"
        using m' [OF b] heap' [OF ra] by simp
      ultimately show ?thesis using True by auto
    next
      case False
      have "matches st' x = heap st' ! (refs st ! x)" using m' [OF x] False by simp
      then show ?thesis using grow [OF range [OF x]] by (simp add: matches_def)
    qed
  qed
  have ma: "matches st' a = heap st ! ra \<union> heap st ! rb"
  proof (cases "a = b")
    case True
    then show ?thesis using m' [OF a] heap' [OF ra] by simp
  next
    case False
    then show ?thesis using m' [OF a] heap' [OF ra] by (simp add: ra_def)
  qed
  have mb: "matches st' b = heap st ! ra \<union> heap st ! rb"
    using m' [OF b] heap' [OF ra] by simp
  have b_in: "b \<in> matches st' a" using ma self [OF b] by (simp add: rb_def)
  have a_in: "a \<in> matches st' b" using mb self [OF a] by (simp add: ra_def)
  have inv': "store_inv R N st'"
    unfolding store_inv_def
  proof (intro conjI allI impI ballI)
    show "length (refs st') = N" "length (heap st') = N" using len by (simp_all add: st'_def)
  next
    fix x assume "x < N"
    then show "refs st' ! x < N" using refs' range ra by simp
  next
    fix x assume x: "x < N"
    have "x \<in> matches st x" using self [OF x] by (simp add: matches_def)
    then show "x \<in> matches st' x" using mono x by blast
  next
    fix k y assume k: "k < N" and y: "y \<in> heap st' ! k"
    show "y < N"
      using y heap' [OF k] sound [OF k] sound [OF ra] sound [OF rb] by (auto split: if_splits)
    show "R k y"
    proof (cases "k = ra \<and> y \<in> heap st ! rb")
      case True
      then have "R rb y" using sound [OF rb] by simp
      then show ?thesis using True R_ra_rb trans by blast
    next
      case False
      then have "y \<in> heap st ! k" using y heap' [OF k] by (auto split: if_splits)
      then show ?thesis using sound [OF k] by simp
    qed
  next
    fix x assume x: "x < N"
    show "R x (refs st' ! x)"
    proof (cases "x = b")
      case True
      have "R b ra" using ab R_a_ra sym trans by blast
      then show ?thesis using True refs' [OF x] by simp
    next
      case False
      then show ?thesis using refs' [OF x] ref [OF x] by simp
    qed
  qed
  show ?thesis using run inv' mono b_in a_in by blast
qed

lemma link_pairs_fold:
  assumes eq: "equivp R"
    and inv: "store_inv R N st" and ps: "\<forall>(a, b) \<in> set ps. a < N \<and> b < N \<and> R a b"
  shows "\<exists>st'. foldl link_pair (Inr st) ps = Inr st' \<and> store_inv R N st'
           \<and> (\<forall>x < N. matches st x \<subseteq> matches st' x)
           \<and> (\<forall>(a, b) \<in> set ps. b \<in> matches st' a \<and> a \<in> matches st' b)"
  using inv ps
proof (induction ps arbitrary: st)
  case Nil
  then show ?case by simp
next
  case (Cons p ps)
  obtain a b where p: "p = (a, b)" by (cases p)
  have ab: "a < N" "b < N" "R a b" using Cons.prems(2) p by simp_all
  obtain st1 where st1: "link_pair (Inr st) (a, b) = Inr st1" "store_inv R N st1"
    "\<forall>x < N. matches st x \<subseteq> matches st1 x" "b \<in> matches st1 a" "a \<in> matches st1 b"
    using link_pair_step [OF eq Cons.prems(1) ab] by blast
  have rest: "\<forall>(a, b) \<in> set ps. a < N \<and> b < N \<and> R a b" using Cons.prems(2) by simp
  obtain st' where st': "foldl link_pair (Inr st1) ps = Inr st'" "store_inv R N st'"
    "\<forall>x < N. matches st1 x \<subseteq> matches st' x"
    "\<forall>(a, b) \<in> set ps. b \<in> matches st' a \<and> a \<in> matches st' b"
    using Cons.IH [OF st1(2) rest] by blast
  have "foldl link_pair (Inr st) (p # ps) = Inr st'" using st1(1) st'(1) p by simp
  moreover have "\<forall>x < N. matches st x \<subseteq> matches st' x" using st1(3) st'(3) by blast
  moreover have "b \<in> matches st' a \<and> a \<in> matches st' b" using st1(4,5) st'(3) ab by blast
  ultimately show ?case using st'(2,4) p by auto
qed

lemma label_loop:
  assumes eq: "equivp R"
    and m: "\<forall>x < N. matches st x = {y. y < N \<and> R x y}"
    and k: "k \<le> N"
  shows "\<exists>labels idx. foldl (label_node False st) (replicate N (- 1), 0) [0..<k] = (labels, idx)
           \<and> length labels = N \<and> 0 \<le> idx
           \<and> (\<forall>x < N. labels ! x = - 1 \<or> (0 \<le> labels ! x \<and> labels ! x < idx))
           \<and> (\<forall>x < N. (labels ! x > - 1) = (\<exists>m < k. R m x))
           \<and> (\<forall>x < N. \<forall>y < N. labels ! x > - 1 \<longrightarrow> labels ! y > - 1 \<longrightarrow>
                 (labels ! x = labels ! y) = R x y)"
  using k
proof (induction k)
  case 0
  then show ?case by simp
next
  case (Suc k)
  note sym = equivp_symp [OF eq] and trans = equivp_transp [OF eq] and refl = equivp_reflp [OF eq]
  have kN: "k < N" using Suc.prems by simp
  obtain labels idx where run: "foldl (label_node False st) (replicate N (- 1), 0) [0..<k] = (labels, idx)"
    and len: "length labels = N" and idx: "0 \<le> idx"
    and range: "\<forall>x < N. labels ! x = - 1 \<or> (0 \<le> labels ! x \<and> labels ! x < idx)"
    and lab: "\<forall>x < N. (labels ! x > - 1) = (\<exists>m < k. R m x)"
    and same: "\<forall>x < N. \<forall>y < N. labels ! x > - 1 \<longrightarrow> labels ! y > - 1 \<longrightarrow>
                 (labels ! x = labels ! y) = R x y"
    using Suc.IH kN by auto
  let ?S = "{y. y < N \<and> R k y}"
  have linked_nodes: "heap st ! (refs st ! k) = ?S" using m kN by (simp add: matches_def)
  have step: "foldl (label_node False st) (replicate N (- 1), 0) [0..<Suc k] =
      label_node False st (labels, idx) k"
    using run by simp
  show ?case
  proof (cases "labels ! k > - 1")
    case True
    have res: "label_node False st (labels, idx) k = (labels, idx)"
      using True by (simp add: label_node_def)
    have "\<forall>x < N. (labels ! x > - 1) = (\<exists>m < Suc k. R m x)"
    proof (intro allI impI)
      fix x assume x: "x < N"
      obtain m' where m': "m' < k" "R m' k" using True lab kN by auto
      show "(labels ! x > - 1) = (\<exists>m < Suc k. R m x)"
      proof
        assume "labels ! x > - 1"
        then obtain m where "m < k" "R m x" using lab x by auto
        then show "\<exists>m < Suc k. R m x" using less_SucI by blast
      next
        assume "\<exists>m < Suc k. R m x"
        then obtain m where mm: "m < Suc k" "R m x" by blast
        have "\<exists>m < k. R m x"
        proof (cases "m = k")
          case True
          then have "R m' x" using m'(2) mm(2) trans by blast
          then show ?thesis using m'(1) by blast
        next
          case False
          then have "m < k" using mm(1) by simp
          then show ?thesis using mm(2) by blast
        qed
        then show "labels ! x > - 1" using lab x by simp
      qed
    qed
    then show ?thesis using step res len idx range same by simp
  next
    case False
    let ?labels' = "map (\<lambda>(l_node, label). if l_node \<in> ?S then idx else label) (enumerate 0 labels)"
    have res: "label_node False st (labels, idx) k = (?labels', idx + 1)"
      using False by (simp add: label_node_def linked_nodes)
    have nth': "\<And>x. x < N \<Longrightarrow> ?labels' ! x = (if R k x then idx else labels ! x)"
      using len by (simp add: nth_enumerate_eq)
    have len': "length ?labels' = N" using len by simp
    have range': "\<forall>x < N. ?labels' ! x = - 1 \<or> (0 \<le> ?labels' ! x \<and> ?labels' ! x < idx + 1)"
      using nth' range idx by auto
    have lab': "\<forall>x < N. (?labels' ! x > - 1) = (\<exists>m < Suc k. R m x)"
    proof (intro allI impI)
      fix x assume x: "x < N"
      show "(?labels' ! x > - 1) = (\<exists>m < Suc k. R m x)"
      proof (cases "R k x")
        case True
        then show ?thesis using nth' [OF x] idx by auto
      next
        case False
        then have "(\<exists>m < Suc k. R m x) = (\<exists>m < k. R m x)" by (auto simp: less_Suc_eq)
        then show ?thesis using nth' [OF x] False lab x by simp
      qed
    qed
    have same': "\<forall>x < N. \<forall>y < N. ?labels' ! x > - 1 \<longrightarrow> ?labels' ! y > - 1 \<longrightarrow>
                 (?labels' ! x = ?labels' ! y) = R x y"
    proof (intro allI impI)
      fix x y assume x: "x < N" and y: "y < N"
        and lx: "?labels' ! x > - 1" and ly: "?labels' ! y > - 1"
      show "(?labels' ! x = ?labels' ! y) = R x y"
      proof (cases "R k x")
        case kx: True
        show ?thesis
        proof (cases "R k y")
          case True
          then have "R x y" using kx sym trans by blast
          then show ?thesis using nth' [OF x] nth' [OF y] kx True by simp
        next
          case False
          then have "\<not> R x y" using kx trans by blast
          moreover have "labels ! y < idx" using ly nth' [OF y] False range y by force
          ultimately show ?thesis using nth' [OF x] nth' [OF y] kx False by simp
        qed
      next
        case nkx: False
        show ?thesis
        proof (cases "R k y")
          case True
          then have "\<not> R x y" using nkx sym trans by blast
          moreover have "labels ! x < idx" using lx nth' [OF x] nkx range x by force
          ultimately show ?thesis using nth' [OF x] nth' [OF y] nkx True by simp
        next
          case False
          then show ?thesis using nth' [OF x] nth' [OF y] nkx same x y lx ly by simp
        qed
      qed
    qed
    show ?thesis using step res len' idx range' lab' same' by simp
  qed
qed

lemma linked_sym_pairs: "linked P a b = ((a, b) \<in> set (sym_pairs P))"
  by (auto simp: linked_def sym_pairs_def)

lemma transitively_closedD:
  assumes "transitively_closed P" and "(a, b) \<in> set (sym_pairs P)" and "(b, d) \<in> set (sym_pairs P)"
    and "a \<noteq> d"
  shows "(a, d) \<in> set (sym_pairs P)"
proof -
  have "\<forall>p \<in> set (sym_pairs P). \<forall>q \<in> set (sym_pairs P).
      snd p = fst q \<and> fst p \<noteq> snd q \<longrightarrow> (fst p, snd q) \<in> set (sym_pairs P)"
    using assms(1) unfolding transitively_closed_def by (simp add: case_prod_beta)
  then have "snd (a, b) = fst (b, d) \<and> fst (a, b) \<noteq> snd (b, d) \<longrightarrow>
      (fst (a, b), snd (b, d)) \<in> set (sym_pairs P)"
    using assms(2,3) by (elim ballE [where x = "(a, b)"] ballE [where x = "(b, d)"]) simp_all
  then show ?thesis using assms(4) by simp
qed

lemma same_entity_equivp:
  assumes "transitively_closed P"
  shows "equivp (same_entity P)"
proof (rule equivpI)
  show "reflp (same_entity P)" by (simp add: reflp_def same_entity_def)
  show "symp (same_entity P)" by (auto simp: symp_def same_entity_def linked_def)
  show "transp (same_entity P)"
  proof (rule transpI)
    fix x y z assume xy: "same_entity P x y" and yz: "same_entity P y z"
    show "same_entity P x z"
    proof (cases "x = y \<or> y = z \<or> x = z")
      case True
      then show ?thesis using xy yz by (auto simp: same_entity_def)
    next
      case False
      then have "(x, y) \<in> set (sym_pairs P)" "(y, z) \<in> set (sym_pairs P)"
        using xy yz by (simp_all add: same_entity_def linked_sym_pairs)
      then have "(x, z) \<in> set (sym_pairs P)"
        using False by (intro transitively_closedD [OF assms, of x y z]) simp_all
      then show ?thesis by (simp add: same_entity_def linked_sym_pairs)
    qed
  qed
qed

lemma pairs_to_labels_partition:
  assumes range: "\<forall>(a, b) \<in> set P. a < N \<and> b < N"
    and closed: "transitively_closed P"
  shows "\<exists>L. pairs_to_labels P N False = Inr L \<and> length L = N \<and> - 1 \<notin> set L
           \<and> (\<forall>x < N. \<forall>y < N. (L ! x = L ! y) = same_entity P x y)"
proof -
  let ?R = "same_entity P"
  have eq: "equivp ?R" by (rule same_entity_equivp [OF closed])
  have ps: "\<forall>(a, b) \<in> set P. a < N \<and> b < N \<and> ?R a b"
    using range by (auto simp: same_entity_def linked_def)
  obtain st where st: "foldl link_pair (Inr (init_store N)) P = Inr st" "store_inv ?R N st"
    "\<forall>(a, b) \<in> set P. b \<in> matches st a \<and> a \<in> matches st b"
    using link_pairs_fold [OF eq init_store_inv [OF eq] ps] by blast
  have m: "\<forall>x < N. matches st x = {y. y < N \<and> ?R x y}"
  proof (intro allI impI)
    fix x assume x: "x < N"
    have rx: "refs st ! x < N" and self: "x \<in> matches st x"
      and ref: "?R x (refs st ! x)"
      using st(2) x by (simp_all add: store_inv_def)
    have "\<forall>k < N. \<forall>y \<in> heap st ! k. y < N \<and> ?R k y"
      using st(2) by (simp add: store_inv_def)
    then have sound: "\<forall>y \<in> heap st ! (refs st ! x). y < N \<and> ?R (refs st ! x) y"
      using rx by blast
    show "matches st x = {y. y < N \<and> ?R x y}"
    proof (intro set_eqI iffI)
      fix y assume "y \<in> matches st x"
      then have "y < N" "?R (refs st ! x) y" using sound by (simp_all add: matches_def)
      then show "y \<in> {y. y < N \<and> ?R x y}" using ref equivp_transp [OF eq] by blast
    next
      fix y assume "y \<in> {y. y < N \<and> ?R x y}"
      then have "x = y \<or> (x, y) \<in> set P \<or> (y, x) \<in> set P"
        by (auto simp: same_entity_def linked_def)
      then show "y \<in> matches st x" using self st(3) by auto
    qed
  qed
  obtain labels idx where run: "foldl (label_node False st) (replicate N (- 1), 0) [0..<N] = (labels, idx)"
    and len: "length labels = N"
    and lab: "\<forall>x < N. (labels ! x > - 1) = (\<exists>m < N. ?R m x)"
    and same: "\<forall>x < N. \<forall>y < N. labels ! x > - 1 \<longrightarrow> labels ! y > - 1 \<longrightarrow>
                 (labels ! x = labels ! y) = ?R x y"
    using label_loop [OF eq m order_refl] by blast
  have all: "\<forall>x < N. labels ! x > - 1"
  proof (intro allI impI)
    fix x assume x: "x < N"
    have "?R x x" by (simp add: same_entity_def)
    then show "labels ! x > - 1" using lab x by blast
  qed
  have "pairs_to_labels P N False = Inr labels"
    using st(1) run by (simp add: pairs_to_labels_def)
  moreover have "- 1 \<notin> set labels"
  proof
    assume "- 1 \<in> set labels"
    then obtain x where "x < N" "labels ! x = - 1" using len by (auto simp: in_set_conv_nth)
    then show False using all by force
  qed
  moreover have "\<forall>x < N. \<forall>y < N. (labels ! x = labels ! y) = ?R x y"
    using same all by simp
  ultimately show ?thesis using len by blast
qed

text \<open>
  Claim C1. For a list \<open>P\<close> of linked pairs (two distinct mentions each) over the
  mentions below \<open>N\<close> that is transitively closed, converting \<open>P\<close> to labels and the
  labels back to pairs succeeds and gives the pairs of \<open>P\<close>, as a set of unordered
  pairs.
\<close>

theorem pairs_round_trip_same_pairs:
  assumes "\<forall>(a, b) \<in> set P. a < N \<and> b < N \<and> a \<noteq> b"
    and "transitively_closed P"
  shows "\<exists>Q. pairs_round_trip P N = Inr Q \<and> unordered_pairs Q = unordered_pairs P"
proof -
  have range: "\<forall>(a, b) \<in> set P. a < N \<and> b < N" using assms(1) by auto
  obtain L where L: "pairs_to_labels P N False = Inr L" "length L = N" "- 1 \<notin> set L"
    "\<forall>x < N. \<forall>y < N. (L ! x = L ! y) = same_entity P x y"
    using pairs_to_labels_partition [OF range assms(2)] by blast
  let ?Q = "fst (labels_to_pairs_state L)"
  have run: "pairs_round_trip P N = Inr ?Q"
    using L(1,3) by (simp add: pairs_round_trip_def labels_to_pairs_def labels_to_pairs_state_def)
  have Q: "set ?Q = {(j, i). i < j \<and> j < N \<and> L ! i = L ! j}"
    using labels_to_pairs_state_pairs [of L] L(2) by simp
  have "unordered_pairs ?Q = unordered_pairs P"
  proof (intro set_eqI iffI)
    fix s assume "s \<in> unordered_pairs ?Q"
    then obtain i j where s: "s = {j, i}" and ij: "i < j" "j < N" "L ! i = L ! j"
      unfolding unordered_pairs_def Q by auto
    then have "same_entity P i j" using L(4) by simp
    then have "(i, j) \<in> set P \<or> (j, i) \<in> set P" using ij(1) by (auto simp: same_entity_def linked_def)
    then show "s \<in> unordered_pairs P"
    proof
      assume "(i, j) \<in> set P"
      then have "{i, j} \<in> unordered_pairs P" unfolding unordered_pairs_def by force
      then show ?thesis unfolding s by (simp add: insert_commute)
    next
      assume "(j, i) \<in> set P"
      then show ?thesis unfolding unordered_pairs_def s by force
    qed
  next
    fix s assume "s \<in> unordered_pairs P"
    then obtain a b where s: "s = {a, b}" and ab: "(a, b) \<in> set P"
      unfolding unordered_pairs_def by auto
    have r: "a < N" "b < N" "a \<noteq> b" using assms(1) ab by auto
    have "same_entity P a b" using ab by (simp add: same_entity_def linked_def)
    then have lab: "L ! a = L ! b" using L(4) r by simp
    show "s \<in> unordered_pairs ?Q"
    proof (cases "a < b")
      case True
      then have "(b, a) \<in> set ?Q" unfolding Q using r lab by simp
      then have "{b, a} \<in> unordered_pairs ?Q" unfolding unordered_pairs_def by force
      then show ?thesis unfolding s by (simp add: insert_commute)
    next
      case False
      then have "b < a" using r by simp
      then have "(a, b) \<in> set ?Q" unfolding Q using r lab by simp
      then show ?thesis unfolding unordered_pairs_def s by force
    qed
  qed
  then show ?thesis using run by blast
qed

theorem pairs_round_trip_same_pairs_witness:
  "transitively_closed [(1, 0), (3, 0), (3, 1)]
   \<and> pairs_to_labels [(1, 0), (3, 0), (3, 1)] 4 False = Inr [0, 0, 1, 0]
   \<and> pairs_round_trip [(1, 0), (3, 0), (3, 1)] 4 = Inr [(1, 0), (3, 0), (3, 1)]
   \<and> pairs_round_trip [(0, 1), (2, 1), (0, 2)] 3 = Inr [(1, 0), (2, 0), (2, 1)]
   \<and> unordered_pairs [(1, 0), (2, 0), (2, 1)] = unordered_pairs [(0, 1), (2, 1), (0, 2)]"
proof -
  have c: "transitively_closed [(1, 0), (3, 0), (3, 1)]" by code_simp
  have c': "transitively_closed [(0, 1), (2, 1), (0, 2)]" by code_simp
  have l: "pairs_to_labels [(1, 0), (3, 0), (3, 1)] 4 False = Inr [0, 0, 1, 0]" by code_simp
  have r: "pairs_round_trip [(1, 0), (3, 0), (3, 1)] 4 = Inr [(1, 0), (3, 0), (3, 1)]" by code_simp
  have r': "pairs_round_trip [(0, 1), (2, 1), (0, 2)] 3 = Inr [(1, 0), (2, 0), (2, 1)]" by code_simp
  have h: "\<forall>(a, b) \<in> set [(0, 1), (2, 1), (0, 2)]. a < (3::nat) \<and> b < 3 \<and> a \<noteq> b" by simp
  have "unordered_pairs [(1, 0), (2, 0), (2, 1)] = unordered_pairs [(0, 1), (2, 1), (0, 2)]"
    using pairs_round_trip_same_pairs [OF h c'] r' by simp
  then show ?thesis using c l r r' by (intro conjI)
qed

end
